theory Spec2Isabelle
  imports Main "HOL-Library.Word" "HOL-Library.Multiset"
begin

section \<open>The ledger store (payments/models.py)\<close>

text \<open>
  The three Django models are records and the database is a record of three tables, each a
  list of rows in insertion order. Decimal amounts (\<open>max_digits=15, decimal_places=2\<close>)
  are integers counting hundredths, timestamps are integers, a UUID is a 128-bit word, and a
  nullable foreign key is an \<open>option\<close> of the referenced primary key.
\<close>

type_synonym uuid = "128 word"

record organization =
  org_id :: nat
  org_inn :: string
  org_balance :: int

record payment =
  pay_id :: nat
  pay_operation_id :: uuid
  pay_amount :: int
  pay_payer_inn :: string
  pay_document_number :: string
  pay_document_date :: int
  pay_created_at :: int
  pay_organization :: "nat option"

record balance_log =
  log_id :: nat
  log_organization :: nat
  log_amount :: int
  log_new_balance :: int
  log_payment :: "nat option"
  log_created_at :: int

record store =
  organizations :: "organization list"
  payments :: "payment list"
  balance_logs :: "balance_log list"

definition empty_store :: store where
  "empty_store = \<lparr>organizations = [], payments = [], balance_logs = []\<rparr>"

text \<open>The automatic primary key of a new row: one more than every key of the table.\<close>

definition next_id :: "nat list \<Rightarrow> nat" where
  "next_id ks = Suc (foldr max ks 0)"

section \<open>The webhook serializer (payments/serializers.py)\<close>

text \<open>
  \<open>webhook_data\<close> holds the five fields of \<open>WebhookSerializer\<close> as its field classes
  parse them; \<open>is_valid\<close> is what the declared validators then demand:
  \<open>min_value=0\<close> and \<open>max_digits=15\<close> for the amount, a length of 10 to 12 and
  \<open>validate_payer_inn\<close> for the tax identifier, a non-blank document number of at most
  50 characters, and no null character in either string. A string is a list of code points
  below 256; among them \<open>str.isdigit\<close> holds for \<open>0\<close> to \<open>9\<close> and for the
  superscript digits U+00B2, U+00B3 and U+00B9.
\<close>

record webhook_data =
  operation_id :: uuid
  amount :: int
  payer_inn :: string
  document_number :: string
  document_date :: int

definition isdigit :: "string \<Rightarrow> bool" where
  "isdigit v =
     (v \<noteq> [] \<and>
      list_all (\<lambda>c. c \<in> set ''0123456789'' \<or> c \<in> {CHR 0xB2, CHR 0xB3, CHR 0xB9}) v)"

definition validate_payer_inn :: "string \<Rightarrow> bool" where
  "validate_payer_inn v = isdigit v"

definition is_valid :: "webhook_data \<Rightarrow> bool" where
  "is_valid d =
     (0 \<le> amount d \<and> amount d < 10 ^ 15 \<and>
      10 \<le> length (payer_inn d) \<and> length (payer_inn d) \<le> 12 \<and>
      CHR 0x00 \<notin> set (payer_inn d) \<and>
      validate_payer_inn (payer_inn d) \<and>
      document_number d \<noteq> [] \<and> length (document_number d) \<le> 50 \<and>
      CHR 0x00 \<notin> set (document_number d))"

section \<open>Storage operations of the atomic block\<close>

text \<open>
  The four ORM calls inside \<open>transaction.atomic()\<close> can raise. A violated uniqueness
  constraint is decided by the rows of the store; any other exception of the storage layer
  (connection lost, a value the column cannot hold, ...) is an input of the model: the list
  \<open>fs\<close> names the calls at which the storage layer raises during this request.
\<close>

datatype step = GetOrCreate | PaymentCreate | OrganizationSave | BalanceLogCreate

datatype error = StorageError step | IntegrityError | MultipleObjectsReturned

datatype response =
  HTTP_200_OK | HTTP_400_BAD_REQUEST | HTTP_500_INTERNAL_SERVER_ERROR error

text \<open>\<open>Organization.objects.get_or_create(inn=..., defaults={'balance': 0})\<close>\<close>

definition get_or_create ::
  "step list \<Rightarrow> string \<Rightarrow> store \<Rightarrow> error + (store \<times> organization \<times> bool)" where
  "get_or_create fs i s =
     (if GetOrCreate \<in> set fs then Inl (StorageError GetOrCreate)
      else case filter (\<lambda>c. org_inn c = i) (organizations s) of
        [] \<Rightarrow>
          let c = \<lparr>org_id = next_id (map org_id (organizations s)),
                   org_inn = i, org_balance = 0\<rparr>
          in Inr (s\<lparr>organizations := organizations s @ [c]\<rparr>, c, True)
      | [c] \<Rightarrow> Inr (s, c, False)
      | _ \<Rightarrow> Inl MultipleObjectsReturned)"

text \<open>
  \<open>Payment.objects.create(...)\<close>: \<open>operation_id\<close> is \<open>unique=True\<close>, so the insert
  raises \<open>IntegrityError\<close> when a row with this identifier is already stored.
\<close>

definition exists_operation :: "store \<Rightarrow> uuid \<Rightarrow> bool" where
  "exists_operation s u = list_ex (\<lambda>p. pay_operation_id p = u) (payments s)"

definition payment_create ::
  "step list \<Rightarrow> int \<Rightarrow> webhook_data \<Rightarrow> organization \<Rightarrow> store \<Rightarrow> error + (store \<times> payment)" where
  "payment_create fs now d organization s =
     (if PaymentCreate \<in> set fs then Inl (StorageError PaymentCreate)
      else if exists_operation s (operation_id d) then Inl IntegrityError
      else
        let p = \<lparr>pay_id = next_id (map pay_id (payments s)),
                 pay_operation_id = operation_id d,
                 pay_amount = amount d,
                 pay_payer_inn = payer_inn d,
                 pay_document_number = document_number d,
                 pay_document_date = document_date d,
                 pay_created_at = now,
                 pay_organization = Some (org_id organization)\<rparr>
        in Inr (s\<lparr>payments := payments s @ [p]\<rparr>, p))"

text \<open>
  \<open>organization.save()\<close>: the row with the object's primary key is overwritten; when no
  row has that key the object is inserted.
\<close>

definition organization_save :: "step list \<Rightarrow> organization \<Rightarrow> store \<Rightarrow> error + store" where
  "organization_save fs organization s =
     (if OrganizationSave \<in> set fs then Inl (StorageError OrganizationSave)
      else if list_ex (\<lambda>c. org_id c = org_id organization) (organizations s)
      then Inr (s\<lparr>organizations :=
                  map (\<lambda>c. if org_id c = org_id organization then organization else c)
                      (organizations s)\<rparr>)
      else Inr (s\<lparr>organizations := organizations s @ [organization]\<rparr>))"

text \<open>\<open>BalanceLog.objects.create(...)\<close>\<close>

definition balance_log_create ::
  "step list \<Rightarrow> int \<Rightarrow> organization \<Rightarrow> int \<Rightarrow> int \<Rightarrow> payment \<Rightarrow> store \<Rightarrow> error + store" where
  "balance_log_create fs now organization a b p s =
     (if BalanceLogCreate \<in> set fs then Inl (StorageError BalanceLogCreate)
      else
        let l = \<lparr>log_id = next_id (map log_id (balance_logs s)),
                 log_organization = org_id organization,
                 log_amount = a,
                 log_new_balance = b,
                 log_payment = Some (pay_id p),
                 log_created_at = now\<rparr>
        in Inr (s\<lparr>balance_logs := balance_logs s @ [l]\<rparr>))"

section \<open>BankWebhookView.post (payments/views.py)\<close>

text \<open>
  The body of the \<open>with transaction.atomic()\<close> block, lines 74 to 96: each call works on
  the store its predecessor left, and the first exception ends the block.
\<close>

definition mutation :: "int \<Rightarrow> step list \<Rightarrow> webhook_data \<Rightarrow> store \<Rightarrow> error + store" where
  "mutation now fs d s =
     (case get_or_create fs (payer_inn d) s of
        Inl e \<Rightarrow> Inl e
      | Inr (s1, organization, created) \<Rightarrow>
        (case payment_create fs now d organization s1 of
           Inl e \<Rightarrow> Inl e
         | Inr (s2, p) \<Rightarrow>
           let organization' =
                 organization\<lparr>org_balance := org_balance organization + amount d\<rparr>
           in (case organization_save fs organization' s2 of
                 Inl e \<Rightarrow> Inl e
               | Inr s3 \<Rightarrow>
                 balance_log_create fs now organization' (amount d)
                   (org_balance organization') p s3)))"

text \<open>
  \<open>transaction.atomic()\<close>: the block's writes are committed when it ends normally; an
  exception leaving the block rolls the store back to its state on entry and is re-raised.
\<close>

definition atomic :: "(store \<Rightarrow> error + store) \<Rightarrow> store \<Rightarrow> store \<times> (error + unit)" where
  "atomic body s = (case body s of Inl e \<Rightarrow> (s, Inl e) | Inr s' \<Rightarrow> (s', Inr ()))"

text \<open>Lines 70 to 121: the \<open>try\<close> statement, whose handler answers every exception with 500.\<close>

definition post_try :: "int \<Rightarrow> step list \<Rightarrow> webhook_data \<Rightarrow> store \<Rightarrow> store \<times> response" where
  "post_try now fs d s =
     (case atomic (mutation now fs d) s of
        (s', Inr _) \<Rightarrow> (s', HTTP_200_OK)
      | (s', Inl e) \<Rightarrow> (s', HTTP_500_INTERNAL_SERVER_ERROR e))"

text \<open>
  \<open>post\<close>, lines 60 to 121. \<open>is_valid(raise_exception=True)\<close> answers an invalid event
  with 400; a stored \<open>operation_id\<close> is answered with 200 at once.
\<close>

definition post :: "int \<Rightarrow> step list \<Rightarrow> webhook_data \<Rightarrow> store \<Rightarrow> store \<times> response" where
  "post now fs d s =
     (if \<not> is_valid d then (s, HTTP_400_BAD_REQUEST)
      else if exists_operation s (operation_id d) then (s, HTTP_200_OK)
      else post_try now fs d s)"

text \<open>
  Two requests in flight: the first passes its duplicate check on the store \<open>s\<close>, then the
  second request \<open>d2\<close> is handled from start to end, and only then does the first enter
  its \<open>try\<close> statement, on the store the second one left.
\<close>

definition post_overtaken ::
  "int \<Rightarrow> step list \<Rightarrow> webhook_data \<Rightarrow> int \<Rightarrow> step list \<Rightarrow> webhook_data \<Rightarrow> store
     \<Rightarrow> store \<times> response" where
  "post_overtaken now fs d now2 fs2 d2 s =
     (if \<not> is_valid d then (s, HTTP_400_BAD_REQUEST)
      else if exists_operation s (operation_id d) then (s, HTTP_200_OK)
      else post_try now fs d (fst (post now2 fs2 d2 s)))"

text \<open>
  Lines 79 to 96, the part of the atomic block that follows \<open>get_or_create\<close>: it works
  with the \<open>organization\<close> object fetched before, whose balance is the one read then.
\<close>

definition mutation_rest ::
  "int \<Rightarrow> step list \<Rightarrow> webhook_data \<Rightarrow> organization \<Rightarrow> store \<Rightarrow> error + store" where
  "mutation_rest now fs d organization s1 =
     (case payment_create fs now d organization s1 of
        Inl e \<Rightarrow> Inl e
      | Inr (s2, p) \<Rightarrow>
        let organization' =
              organization\<lparr>org_balance := org_balance organization + amount d\<rparr>
        in (case organization_save fs organization' s2 of
              Inl e \<Rightarrow> Inl e
            | Inr s3 \<Rightarrow>
              balance_log_create fs now organization' (amount d)
                (org_balance organization') p s3))"

text \<open>
  Two requests in flight, the first overtaken inside its transaction: it passes the
  duplicate check and fetches its organization from the store \<open>s\<close>, then the second
  request \<open>d2\<close> is handled from start to end, and then the first goes on from line 79 on
  the store the second one left; when it fails, only its own writes are undone. The
  schedule needs the organization to be stored already: a request that has just inserted
  the organization holds its unique \<open>inn\<close>, and another request for it has to wait;
  \<open>None\<close> says that the schedule does not arise.
\<close>

definition post_fetch_overtaken ::
  "int \<Rightarrow> step list \<Rightarrow> webhook_data \<Rightarrow> int \<Rightarrow> step list \<Rightarrow> webhook_data \<Rightarrow> store
     \<Rightarrow> (store \<times> response) option" where
  "post_fetch_overtaken now fs d now2 fs2 d2 s =
     (if \<not> is_valid d then Some (s, HTTP_400_BAD_REQUEST)
      else if exists_operation s (operation_id d) then Some (s, HTTP_200_OK)
      else case get_or_create fs (payer_inn d) s of
          Inl e \<Rightarrow> Some (s, HTTP_500_INTERNAL_SERVER_ERROR e)
        | Inr (s1, organization, created) \<Rightarrow>
            if created then None
            else
              let s2 = fst (post now2 fs2 d2 s)
              in (case mutation_rest now fs d organization s2 of
                    Inl e \<Rightarrow> Some (s2, HTTP_500_INTERNAL_SERVER_ERROR e)
                  | Inr s3 \<Rightarrow> Some (s3, HTTP_200_OK)))"

text \<open>
  Requests handled one after the other, each given as its time and its event, with no
  storage call raising.
\<close>

fun post_each :: "(int \<times> webhook_data) list \<Rightarrow> store \<Rightarrow> store" where
  "post_each [] s = s"
| "post_each ((now, d) # rs) s = post_each rs (fst (post now [] d s))"

text \<open>The states of the store that requests handled one after the other can produce.\<close>

inductive reachable :: "store \<Rightarrow> bool" where
  reachable_empty: "reachable empty_store"
| reachable_post: "reachable s \<Longrightarrow> reachable (fst (post now fs d s))"

section \<open>OrganizationBalanceView.get (payments/views.py)\<close>

text \<open>
  \<open>Organization.objects.get(inn=inn)\<close> answers with the serialized \<open>inn\<close> and
  \<open>balance\<close>; \<open>DoesNotExist\<close> is caught and answered with 404, while
  \<open>MultipleObjectsReturned\<close> is not caught.
\<close>

datatype balance_response =
  HTTP_200_balance string int | HTTP_404_NOT_FOUND | Unhandled error

definition balance_view_get :: "string \<Rightarrow> store \<Rightarrow> balance_response" where
  "balance_view_get i s =
     (case filter (\<lambda>c. org_inn c = i) (organizations s) of
        [] \<Rightarrow> HTTP_404_NOT_FOUND
      | [c] \<Rightarrow> HTTP_200_balance (org_inn c) (org_balance c)
      | _ \<Rightarrow> Unhandled MultipleObjectsReturned)"

section \<open>OrganizationPaymentsView (payments/views.py)\<close>









text \<open>
  The query parameters of a listing request, \<open>None\<close> for a parameter that is not
  supplied. \<open>q_ordering\<close> is the text of the \<open>ordering\<close> parameter, its terms
  separated by commas.
\<close>

record query_params =
  q_payer_inn :: "string option"
  q_document_number :: "string option"
  q_document_date :: "int option"
  q_ordering :: "string option"






text \<open>\<open>params.split(',')\<close> and \<open>param.strip()\<close>, on code points below 256.\<close>

fun split :: "char \<Rightarrow> string \<Rightarrow> string list" where
  "split sep [] = [[]]"
| "split sep (c # cs) =
     (if c = sep then [] # split sep cs
      else case split sep cs of w # ws \<Rightarrow> (c # w) # ws | [] \<Rightarrow> [[c]])"






section \<open>Notions used to state the properties\<close>

text \<open>The rows a request writes when its transaction commits.\<close>

definition new_payment :: "int \<Rightarrow> webhook_data \<Rightarrow> nat \<Rightarrow> store \<Rightarrow> payment" where
  "new_payment now d k s =
     \<lparr>pay_id = next_id (map pay_id (payments s)),
      pay_operation_id = operation_id d, pay_amount = amount d,
      pay_payer_inn = payer_inn d, pay_document_number = document_number d,
      pay_document_date = document_date d, pay_created_at = now,
      pay_organization = Some k\<rparr>"

definition new_log :: "int \<Rightarrow> webhook_data \<Rightarrow> nat \<Rightarrow> int \<Rightarrow> store \<Rightarrow> balance_log" where
  "new_log now d k b s =
     \<lparr>log_id = next_id (map log_id (balance_logs s)),
      log_organization = k, log_amount = amount d, log_new_balance = b,
      log_payment = Some (next_id (map pay_id (payments s))),
      log_created_at = now\<rparr>"

text \<open>The sum of the deltas of the audit entries of the organization with key \<open>k\<close>.\<close>

definition log_total :: "store \<Rightarrow> nat \<Rightarrow> int" where
  "log_total s k =
     sum_list (map log_amount (filter (\<lambda>l. log_organization l = k) (balance_logs s)))"

text \<open>The audit entries whose payment carries the operation identifier \<open>u\<close>.\<close>

definition payment_logs :: "uuid \<Rightarrow> store \<Rightarrow> balance_log list" where
  "payment_logs u s =
     filter (\<lambda>l. list_ex (\<lambda>p. pay_operation_id p = u \<and> log_payment l = Some (pay_id p))
                           (payments s))
            (balance_logs s)"

text \<open>The balance an event finds: that of the stored organization, 0 when there is none.\<close>

definition balance_or_zero :: "string \<Rightarrow> store \<Rightarrow> int" where
  "balance_or_zero i s =
     (case balance_view_get i s of HTTP_200_balance _ b \<Rightarrow> b | _ \<Rightarrow> 0)"

text \<open>
  What the uniqueness constraints and the lock-step writes of \<open>mutation\<close> maintain: keys
  and unique columns are distinct, the audit entries name the payments one for one, every
  entry and every payment names a stored organization, and each balance is the non-negative
  sum of the organization's entries.
\<close>

definition consistent :: "store \<Rightarrow> bool" where
  "consistent s =
     (distinct (map org_id (organizations s)) \<and>
      distinct (map org_inn (organizations s)) \<and>
      distinct (map pay_id (payments s)) \<and>
      distinct (map pay_operation_id (payments s)) \<and>
      map log_payment (balance_logs s) = map (\<lambda>p. Some (pay_id p)) (payments s) \<and>
      (\<forall>l \<in> set (balance_logs s). log_organization l \<in> set (map org_id (organizations s))) \<and>
      (\<forall>p \<in> set (payments s). \<exists>c \<in> set (organizations s).
          pay_organization p = Some (org_id c) \<and> org_inn c = pay_payer_inn p) \<and>
      (\<forall>c \<in> set (organizations s).
          log_total s (org_id c) = org_balance c \<and> 0 \<le> org_balance c))"

text \<open>Concrete requests and stores, used to run the model.\<close>

definition sample_event :: webhook_data where
  "sample_event =
     \<lparr>operation_id = 1, amount = 14500000, payer_inn = ''1234567890'',
      document_number = ''PAY-328'', document_date = 1714251600\<rparr>"

definition second_event :: webhook_data where
  "second_event =
     \<lparr>operation_id = 2, amount = 5000, payer_inn = ''1234567890'',
      document_number = ''PAY-329'', document_date = 1714338000\<rparr>"

definition sample_organization :: organization where
  "sample_organization =
     \<lparr>org_id = 1, org_inn = ''1234567890'', org_balance = 14500000\<rparr>"

definition sample_payment :: payment where
  "sample_payment =
     \<lparr>pay_id = 1, pay_operation_id = 1, pay_amount = 14500000,
      pay_payer_inn = ''1234567890'', pay_document_number = ''PAY-328'',
      pay_document_date = 1714251600, pay_created_at = 1714251900,
      pay_organization = Some 1\<rparr>"

definition sample_log :: balance_log where
  "sample_log =
     \<lparr>log_id = 1, log_organization = 1, log_amount = 14500000,
      log_new_balance = 14500000, log_payment = Some 1, log_created_at = 1714251900\<rparr>"

definition sample_store :: store where
  "sample_store =
     \<lparr>organizations = [sample_organization], payments = [sample_payment],
      balance_logs = [sample_log]\<rparr>"

definition third_event :: webhook_data where
  "third_event =
     \<lparr>operation_id = 3, amount = 250000, payer_inn = ''770708389312'',
      document_number = ''PAY-330'', document_date = 1714165200\<rparr>"

definition second_payment :: payment where
  "second_payment =
     \<lparr>pay_id = 2, pay_operation_id = 2, pay_amount = 5000,
      pay_payer_inn = ''1234567890'', pay_document_number = ''PAY-329'',
      pay_document_date = 1714338000, pay_created_at = 1714338300,
      pay_organization = Some 1\<rparr>"

definition second_log :: balance_log where
  "second_log =
     \<lparr>log_id = 2, log_organization = 1, log_amount = 5000,
      log_new_balance = 14505000, log_payment = Some 2, log_created_at = 1714338300\<rparr>"

definition second_store :: store where
  "second_store =
     \<lparr>organizations = [sample_organization\<lparr>org_balance := 14505000\<rparr>],
      payments = [sample_payment, second_payment],
      balance_logs = [sample_log, second_log]\<rparr>"

definition third_store :: store where
  "third_store =
     \<lparr>organizations =
        [sample_organization,
         \<lparr>org_id = 2, org_inn = ''770708389312'', org_balance = 250000\<rparr>],
      payments =
        [sample_payment,
         \<lparr>pay_id = 2, pay_operation_id = 3, pay_amount = 250000,
          pay_payer_inn = ''770708389312'', pay_document_number = ''PAY-330'',
          pay_document_date = 1714165200, pay_created_at = 1714400000,
          pay_organization = Some 2\<rparr>],
      balance_logs =
        [sample_log,
         \<lparr>log_id = 2, log_organization = 2, log_amount = 250000,
          log_new_balance = 250000, log_payment = Some 2,
          log_created_at = 1714400000\<rparr>]\<rparr>"

definition no_params :: query_params where
  "no_params =
     \<lparr>q_payer_inn = None, q_document_number = None, q_document_date = None,
      q_ordering = None\<rparr>"

definition fourth_event :: webhook_data where
  "fourth_event =
     \<lparr>operation_id = 4, amount = 100, payer_inn = ''1234567890'',
      document_number = ''PAY-331'', document_date = 1714338100\<rparr>"

definition third_payment :: payment where
  "third_payment =
     \<lparr>pay_id = 3, pay_operation_id = 3, pay_amount = 250000,
      pay_payer_inn = ''770708389312'', pay_document_number = ''PAY-330'',
      pay_document_date = 1714165200, pay_created_at = 1714400000,
      pay_organization = Some 2\<rparr>"

definition listing_store :: store where
  "listing_store =
     \<lparr>organizations =
        [sample_organization\<lparr>org_balance := 14505000\<rparr>,
         \<lparr>org_id = 2, org_inn = ''770708389312'', org_balance = 250000\<rparr>],
      payments = [sample_payment, second_payment, third_payment],
      balance_logs =
        [sample_log, second_log,
         \<lparr>log_id = 3, log_organization = 2, log_amount = 250000,
          log_new_balance = 250000, log_payment = Some 3,
          log_created_at = 1714400000\<rparr>]\<rparr>"

definition inn_params :: query_params where
  "inn_params = no_params\<lparr>q_payer_inn := Some ''1234567890''\<rparr>"

definition number_params :: query_params where
  "number_params = no_params\<lparr>q_document_number := Some ''PAY-330''\<rparr>"

lemmas webhook_defs =
  post_def post_overtaken_def post_try_def atomic_def mutation_def get_or_create_def
  payment_create_def organization_save_def balance_log_create_def exists_operation_def
  next_id_def is_valid_def validate_payer_inn_def isdigit_def Let_def
  post_fetch_overtaken_def mutation_rest_def

lemmas sample_defs =
  sample_event_def second_event_def third_event_def sample_organization_def
  sample_payment_def sample_log_def sample_store_def second_payment_def second_log_def
  second_store_def third_store_def no_params_def empty_store_def fourth_event_def
  third_payment_def listing_store_def inn_params_def number_params_def


section \<open>Fresh keys and successful mutations\<close>

lemma le_foldr_max: "k \<in> set ks \<Longrightarrow> k \<le> foldr max ks (0::nat)"
  by (induction ks) (auto simp: max_def)

lemma next_id_fresh: "next_id ks \<notin> set ks"
  using le_foldr_max [of "next_id ks" ks] by (auto simp: next_id_def)

lemma mutation_no_fault: "mutation now fs d s = Inr s' \<Longrightarrow> fs = []"
proof -
  assume m: "mutation now fs d s = Inr s'"
  have "x \<notin> set fs" for x
    using m
    by (cases x)
      (auto simp: mutation_def get_or_create_def payment_create_def organization_save_def
         balance_log_create_def Let_def split: list.splits if_splits sum.splits)
  then show ?thesis by (cases fs) auto
qed

lemma raising_call_fails: "fs \<noteq> [] \<Longrightarrow> \<exists>e. mutation now fs d s = Inl e"
  using mutation_no_fault [of now fs d s] by (cases "mutation now fs d s") auto

lemma map_replace_fresh:
  "k \<notin> set (map org_id cs) \<Longrightarrow> map (\<lambda>c. if org_id c = k then x else c) cs = cs"
  by (induction cs) auto

lemma mutation_new:
  assumes "filter (\<lambda>c. org_inn c = payer_inn d) (organizations s) = []"
    and "\<not> exists_operation s (operation_id d)"
  shows "mutation now [] d s =
     Inr \<lparr>organizations = organizations s @
             [\<lparr>org_id = next_id (map org_id (organizations s)),
               org_inn = payer_inn d, org_balance = amount d\<rparr>],
          payments = payments s @
             [new_payment now d (next_id (map org_id (organizations s))) s],
          balance_logs = balance_logs s @
             [new_log now d (next_id (map org_id (organizations s))) (amount d) s]\<rparr>"
  using assms next_id_fresh [of "map org_id (organizations s)"]
  by (simp add: mutation_def get_or_create_def payment_create_def organization_save_def
      balance_log_create_def exists_operation_def new_payment_def new_log_def
      map_replace_fresh Let_def)

lemma mutation_old:
  assumes "filter (\<lambda>c. org_inn c = payer_inn d) (organizations s) = [c]"
    and "\<not> exists_operation s (operation_id d)"
  shows "mutation now [] d s =
     Inr \<lparr>organizations =
            map (\<lambda>x. if org_id x = org_id c
                     then c\<lparr>org_balance := org_balance c + amount d\<rparr> else x)
                (organizations s),
          payments = payments s @ [new_payment now d (org_id c) s],
          balance_logs = balance_logs s @
             [new_log now d (org_id c) (org_balance c + amount d) s]\<rparr>"
proof -
  have "c \<in> set (filter (\<lambda>c. org_inn c = payer_inn d) (organizations s))"
    using assms(1) by simp
  then have "c \<in> set (organizations s)" by simp
  then have "list_ex (\<lambda>x. org_id x = org_id c) (organizations s)"
    by (auto simp: list_ex_iff)
  then show ?thesis using assms
    by (simp add: mutation_def get_or_create_def payment_create_def organization_save_def
      balance_log_create_def exists_operation_def new_payment_def new_log_def Let_def)
qed

lemma mutation_dup:
  assumes "exists_operation s (operation_id d)"
  shows "\<exists>e. mutation now fs d s = Inl e"
  using assms by (auto simp add: mutation_def get_or_create_def payment_create_def exists_operation_def Let_def split: list.splits)


section \<open>Consistency of the store\<close>

lemma consistent_empty: "consistent empty_store"
  by (simp add: consistent_def empty_store_def)

lemma filter_distinct_key:
  "distinct (map f xs) \<Longrightarrow> filter (\<lambda>x. f x = k) xs = [] \<or> (\<exists>x. filter (\<lambda>x. f x = k) xs = [x])"
proof (induction xs)
  case Nil
  then show ?case by simp
next
  case (Cons a xs)
  show ?case
  proof (cases "f a = k")
    case True
    with Cons.prems have "\<forall>x \<in> set xs. f x \<noteq> k" by (auto simp: image_iff)
    then have "filter (\<lambda>x. f x = k) xs = []" by (simp add: filter_empty_conv)
    with True show ?thesis by simp
  next
    case False
    with Cons show ?thesis by simp
  qed
qed

lemma log_total_unreferenced:
  "\<forall>l \<in> set (balance_logs s). log_organization l \<noteq> k \<Longrightarrow> log_total s k = 0"
  by (simp add: log_total_def filter_empty_conv[THEN iffD2])

lemma consistent_new:
  assumes c: "consistent s"
    and f: "filter (\<lambda>c. org_inn c = payer_inn d) (organizations s) = []"
    and u: "\<not> exists_operation s (operation_id d)"
    and a: "0 \<le> amount d"
    and k: "k = next_id (map org_id (organizations s))"
  shows "consistent
     \<lparr>organizations = organizations s @
         [\<lparr>org_id = k, org_inn = payer_inn d, org_balance = amount d\<rparr>],
      payments = payments s @ [new_payment now d k s],
      balance_logs = balance_logs s @ [new_log now d k (amount d) s]\<rparr>"
proof -
  have kf: "k \<notin> set (map org_id (organizations s))"
    unfolding k by (rule next_id_fresh)
  have pf: "next_id (map pay_id (payments s)) \<notin> set (map pay_id (payments s))"
    by (rule next_id_fresh)
  have inn: "payer_inn d \<notin> set (map org_inn (organizations s))"
    using f by (auto simp: filter_empty_conv)
  have op: "operation_id d \<notin> set (map pay_operation_id (payments s))"
    using u by (auto simp: exists_operation_def list_ex_iff)
  have unref: "\<forall>l \<in> set (balance_logs s). log_organization l \<noteq> k"
    using c kf by (auto simp: consistent_def)
  have t0: "log_total s k = 0"
    using unref by (rule log_total_unreferenced)
  have told: "\<forall>c \<in> set (organizations s). org_id c \<noteq> k"
    using kf by auto
  show ?thesis
    unfolding consistent_def
  proof (intro conjI)
    show "distinct (map org_id (organizations \<lparr>organizations = organizations s @
         [\<lparr>org_id = k, org_inn = payer_inn d, org_balance = amount d\<rparr>],
      payments = payments s @ [new_payment now d k s],
      balance_logs = balance_logs s @ [new_log now d k (amount d) s]\<rparr>))"
      using c kf by (simp add: consistent_def)
  qed (use c kf pf inn op t0 told a in \<open>auto simp: consistent_def new_payment_def new_log_def log_total_def\<close>)
qed


lemma same_key_same_row:
  "distinct (map f xs) \<Longrightarrow> x \<in> set xs \<Longrightarrow> y \<in> set xs \<Longrightarrow> f x = f y \<Longrightarrow> x = y"
  by (meson distinct_map inj_onD)

lemma consistent_old:
  assumes c: "consistent s"
    and f: "filter (\<lambda>c. org_inn c = payer_inn d) (organizations s) = [c0]"
    and u: "\<not> exists_operation s (operation_id d)"
    and a: "0 \<le> amount d"
  shows "consistent
     \<lparr>organizations =
        map (\<lambda>x. if org_id x = org_id c0
                 then c0\<lparr>org_balance := org_balance c0 + amount d\<rparr> else x)
            (organizations s),
      payments = payments s @ [new_payment now d (org_id c0) s],
      balance_logs = balance_logs s @
         [new_log now d (org_id c0) (org_balance c0 + amount d) s]\<rparr>"
    (is "consistent ?s'")
proof -
  let ?c1 = "c0\<lparr>org_balance := org_balance c0 + amount d\<rparr>"
  let ?upd = "\<lambda>x. if org_id x = org_id c0 then ?c1 else x"
  have "c0 \<in> set (filter (\<lambda>c. org_inn c = payer_inn d) (organizations s))"
    using f by simp
  then have c0: "c0 \<in> set (organizations s)" and inn0: "org_inn c0 = payer_inn d"
    by simp_all
  have dk: "distinct (map org_id (organizations s))"
    using c by (simp add: consistent_def)
  have only: "x = c0" if "x \<in> set (organizations s)" "org_id x = org_id c0" for x
    using same_key_same_row [OF dk that(1) c0 that(2)] .
  have ids: "map org_id (map ?upd (organizations s)) = map org_id (organizations s)"
    by (simp add: o_def if_distrib cong: if_cong)
  have inns: "map org_inn (map ?upd (organizations s)) = map org_inn (organizations s)"
    using only by (auto simp: o_def)
  have pf: "next_id (map pay_id (payments s)) \<notin> set (map pay_id (payments s))"
    by (rule next_id_fresh)
  have op: "operation_id d \<notin> set (map pay_operation_id (payments s))"
    using u by (auto simp: exists_operation_def list_ex_iff)
  have c1in: "?c1 \<in> set (map ?upd (organizations s))"
    using c0 by (auto simp: image_iff intro!: bexI [of _ c0])
  have rows: "x = ?c1 \<or> (x \<in> set (organizations s) \<and> org_id x \<noteq> org_id c0)"
    if "x \<in> set (map ?upd (organizations s))" for x
    using that by (auto split: if_splits)
  have keep: "?upd x \<in> set (map ?upd (organizations s))" if "x \<in> set (organizations s)" for x
    using that by (simp only: set_map) (rule imageI)
  have bal0: "log_total s (org_id c0) = org_balance c0" and nn0: "0 \<le> org_balance c0"
    using c c0 by (auto simp: consistent_def)
  have p1: "distinct (map org_id (organizations ?s'))"
    by (simp only: store.select_convs ids) (rule dk)
  have p2: "distinct (map org_inn (organizations ?s'))"
    by (simp only: store.select_convs inns) (use c in \<open>simp add: consistent_def\<close>)
  have p3: "distinct (map pay_id (payments ?s'))"
    using c pf by (simp add: consistent_def new_payment_def)
  have p4: "distinct (map pay_operation_id (payments ?s'))"
    using c op by (simp add: consistent_def new_payment_def)
  have p5: "map log_payment (balance_logs ?s') = map (\<lambda>p. Some (pay_id p)) (payments ?s')"
    using c by (simp add: consistent_def new_payment_def new_log_def)
  have p6: "\<forall>l \<in> set (balance_logs ?s'). log_organization l \<in> set (map org_id (organizations ?s'))"
  proof -
    have "org_id c0 \<in> set (map org_id (organizations s))" using c0 by simp
    moreover have "\<forall>l \<in> set (balance_logs s). log_organization l \<in> set (map org_id (organizations s))"
      using c by (simp add: consistent_def)
    ultimately show ?thesis
      by (simp only: store.select_convs ids) (simp add: new_log_def)
  qed
  have p7: "\<forall>p \<in> set (payments ?s'). \<exists>c \<in> set (organizations ?s').
          pay_organization p = Some (org_id c) \<and> org_inn c = pay_payer_inn p"
  proof
    fix p assume "p \<in> set (payments ?s')"
    then consider "p = new_payment now d (org_id c0) s" | "p \<in> set (payments s)" by auto
    then show "\<exists>c \<in> set (organizations ?s').
          pay_organization p = Some (org_id c) \<and> org_inn c = pay_payer_inn p"
    proof cases
      case 1
      have h: "pay_organization p = Some (org_id ?c1) \<and> org_inn ?c1 = pay_payer_inn p"
        using 1 inn0 by (simp add: new_payment_def)
      show ?thesis unfolding store.select_convs using h c1in by blast
    next
      case 2
      then obtain x where x: "x \<in> set (organizations s)"
        "pay_organization p = Some (org_id x)" "org_inn x = pay_payer_inn p"
        using c by (auto simp: consistent_def)
      have h: "pay_organization p = Some (org_id (?upd x)) \<and> org_inn (?upd x) = pay_payer_inn p"
        using x only [OF x(1)] by auto
      show ?thesis unfolding store.select_convs using h keep [OF x(1)] by blast
    qed
  qed
  have p8: "\<forall>c \<in> set (organizations ?s'). log_total ?s' (org_id c) = org_balance c \<and> 0 \<le> org_balance c"
  proof
    fix x assume "x \<in> set (organizations ?s')"
    then have "x \<in> set (map ?upd (organizations s))" by simp
    from rows [OF this] show "log_total ?s' (org_id x) = org_balance x \<and> 0 \<le> org_balance x"
    proof
      assume "x = ?c1"
      then show ?thesis using bal0 nn0 a by (simp add: log_total_def new_log_def)
    next
      assume "x \<in> set (organizations s) \<and> org_id x \<noteq> org_id c0"
      then show ?thesis using c by (auto simp: consistent_def log_total_def new_log_def)
    qed
  qed
  show ?thesis
    unfolding consistent_def using p1 p2 p3 p4 p5 p6 p7 p8 by blast
qed


lemma mutation_applied [consumes 3, case_names new old]:
  assumes "consistent s" "\<not> exists_operation s (operation_id d)"
    and m: "mutation now [] d s = Inr s'"
  obtains
    (new) "filter (\<lambda>c. org_inn c = payer_inn d) (organizations s) = []"
      "s' = \<lparr>organizations = organizations s @
             [\<lparr>org_id = next_id (map org_id (organizations s)),
               org_inn = payer_inn d, org_balance = amount d\<rparr>],
          payments = payments s @
             [new_payment now d (next_id (map org_id (organizations s))) s],
          balance_logs = balance_logs s @
             [new_log now d (next_id (map org_id (organizations s))) (amount d) s]\<rparr>"
  | (old) c0 where "filter (\<lambda>c. org_inn c = payer_inn d) (organizations s) = [c0]"
      "s' = \<lparr>organizations =
            map (\<lambda>x. if org_id x = org_id c0
                     then c0\<lparr>org_balance := org_balance c0 + amount d\<rparr> else x)
                (organizations s),
          payments = payments s @ [new_payment now d (org_id c0) s],
          balance_logs = balance_logs s @
             [new_log now d (org_id c0) (org_balance c0 + amount d) s]\<rparr>"
proof -
  have "distinct (map org_inn (organizations s))"
    using assms(1) by (simp add: consistent_def)
  from filter_distinct_key [OF this, of "payer_inn d"] show thesis
  proof
    assume f: "filter (\<lambda>c. org_inn c = payer_inn d) (organizations s) = []"
    show thesis using mutation_new [OF f assms(2), of now] m new [OF f] by simp
  next
    assume "\<exists>c. filter (\<lambda>c. org_inn c = payer_inn d) (organizations s) = [c]"
    then obtain c0 where f: "filter (\<lambda>c. org_inn c = payer_inn d) (organizations s) = [c0]" ..
    show thesis using mutation_old [OF f assms(2), of now] m old [OF f] by simp
  qed
qed

lemma consistent_mutation:
  assumes "consistent s" "\<not> exists_operation s (operation_id d)"
    "mutation now [] d s = Inr s'" "0 \<le> amount d"
  shows "consistent s'"
  using assms(1-3)
proof (cases rule: mutation_applied)
  case new
  show ?thesis unfolding new(2)
    by (rule consistent_new [OF assms(1) new(1) assms(2) assms(4) refl])
next
  case (old c0)
  show ?thesis unfolding old(2)
    by (rule consistent_old [OF assms(1) old(1) assms(2) assms(4)])
qed

lemma post_cases [case_names rejected duplicate failed applied]:
  obtains
    (rejected) "\<not> is_valid d" "post now fs d s = (s, HTTP_400_BAD_REQUEST)"
  | (duplicate) "is_valid d" "exists_operation s (operation_id d)"
      "post now fs d s = (s, HTTP_200_OK)"
  | (failed) e where "is_valid d" "\<not> exists_operation s (operation_id d)"
      "mutation now fs d s = Inl e"
      "post now fs d s = (s, HTTP_500_INTERNAL_SERVER_ERROR e)"
  | (applied) s' where "is_valid d" "\<not> exists_operation s (operation_id d)"
      "fs = []" "mutation now [] d s = Inr s'" "post now fs d s = (s', HTTP_200_OK)"
proof (cases "is_valid d")
  case False
  then show ?thesis using rejected by (simp add: post_def)
next
  case v: True
  show ?thesis
  proof (cases "exists_operation s (operation_id d)")
    case True
    then show ?thesis using v duplicate by (simp add: post_def)
  next
    case u: False
    show ?thesis
    proof (cases "mutation now fs d s")
      case (Inl e)
      then show ?thesis using v u failed [of e]
        by (simp add: post_def post_try_def atomic_def)
    next
      case (Inr s')
      from mutation_no_fault [OF Inr] have "fs = []" .
      then show ?thesis using Inr v u applied [of s']
        by (simp add: post_def post_try_def atomic_def)
    qed
  qed
qed

lemma consistent_post: "consistent s \<Longrightarrow> consistent (fst (post now fs d s))"
proof (cases rule: post_cases [of d now fs s])
  case (applied s')
  assume "consistent s"
  from consistent_mutation [OF this applied(2) applied(4)] applied(1,5)
  show ?thesis by (simp add: is_valid_def)
qed simp_all

lemma reachable_consistent: "reachable s \<Longrightarrow> consistent s"
  by (induction rule: reachable.induct) (simp_all add: consistent_empty consistent_post)


section \<open>Effects of an applied payment\<close>

lemma count_distinct_key:
  assumes "distinct (map f xs)" "x \<in> set xs"
  shows "length (filter (\<lambda>y. f y = f x) xs) = 1"
proof -
  from filter_distinct_key [OF assms(1), of "f x"] show ?thesis
  proof
    assume "filter (\<lambda>y. f y = f x) xs = []"
    then have "\<forall>y \<in> set xs. f y \<noteq> f x" by (simp add: filter_empty_conv)
    with assms(2) show ?thesis by blast
  next
    assume "\<exists>z. filter (\<lambda>y. f y = f x) xs = [z]"
    then obtain z where "filter (\<lambda>y. f y = f x) xs = [z]" ..
    then show ?thesis by simp
  qed
qed

lemma one_payment_one_log:
  assumes c: "consistent s" and e: "exists_operation s u"
  shows "length (filter (\<lambda>p. pay_operation_id p = u) (payments s)) = 1"
    and "length (payment_logs u s) = 1"
proof -
  from e obtain p where p: "p \<in> set (payments s)" "pay_operation_id p = u"
    by (auto simp: exists_operation_def list_ex_iff)
  have du: "distinct (map pay_operation_id (payments s))"
    and dk: "distinct (map pay_id (payments s))"
    and lp: "map log_payment (balance_logs s) = map (\<lambda>p. Some (pay_id p)) (payments s)"
    using c by (simp_all add: consistent_def)
  show "length (filter (\<lambda>p. pay_operation_id p = u) (payments s)) = 1"
    using count_distinct_key [OF du p(1)] p(2) by simp
  have only: "q = p" if "q \<in> set (payments s)" "pay_operation_id q = u" for q
    using same_key_same_row [OF du that(1) p(1)] that(2) p(2) by simp
  have "list_ex (\<lambda>q. pay_operation_id q = u \<and> log_payment l = Some (pay_id q)) (payments s)
        = (log_payment l = Some (pay_id p))" for l :: balance_log
    unfolding list_ex_iff using p only by blast
  then have "payment_logs u s = filter (\<lambda>l. log_payment l = Some (pay_id p)) (balance_logs s)"
    by (simp add: payment_logs_def)
  then have "length (payment_logs u s)
      = length (filter (\<lambda>k. k = Some (pay_id p)) (map log_payment (balance_logs s)))"
    by (simp add: filter_map o_def)
  also have "\<dots> = length (filter (\<lambda>q. pay_id q = pay_id p) (payments s))"
    by (simp add: lp filter_map o_def)
  also have "\<dots> = 1"
    by (rule count_distinct_key [OF dk p(1)])
  finally show "length (payment_logs u s) = 1" .
qed

lemma applied_balance:
  assumes c: "consistent s" and u: "\<not> exists_operation s (operation_id d)"
    and m: "mutation now [] d s = Inr s'"
  shows "balance_view_get (payer_inn d) s' =
           HTTP_200_balance (payer_inn d) (balance_or_zero (payer_inn d) s + amount d)"
  using c u m
proof (cases rule: mutation_applied)
  case new
  then show ?thesis by (simp add: balance_view_get_def balance_or_zero_def)
next
  case (old c0)
  let ?upd = "\<lambda>x. if org_id x = org_id c0
                 then c0\<lparr>org_balance := org_balance c0 + amount d\<rparr> else x"
  have "c0 \<in> set (filter (\<lambda>c. org_inn c = payer_inn d) (organizations s))"
    using old(1) by simp
  then have c0: "c0 \<in> set (organizations s)" and inn0: "org_inn c0 = payer_inn d"
    by simp_all
  have dk: "distinct (map org_id (organizations s))"
    using c by (simp add: consistent_def)
  have only: "x = c0" if "x \<in> set (organizations s)" "org_id x = org_id c0" for x
    using same_key_same_row [OF dk that(1) c0 that(2)] .
  have "filter (\<lambda>c. org_inn c = payer_inn d) (map ?upd (organizations s))
      = map ?upd (filter (\<lambda>c. org_inn (?upd c) = payer_inn d) (organizations s))"
    by (simp add: filter_map o_def)
  also have "filter (\<lambda>c. org_inn (?upd c) = payer_inn d) (organizations s)
      = filter (\<lambda>c. org_inn c = payer_inn d) (organizations s)"
    by (rule filter_cong [OF refl]) (use only in auto)
  finally have "filter (\<lambda>c. org_inn c = payer_inn d) (organizations s')
      = [c0\<lparr>org_balance := org_balance c0 + amount d\<rparr>]"
    using old by simp
  then show ?thesis using old(1) inn0
    by (simp add: balance_view_get_def balance_or_zero_def)
qed

lemma applied_exists:
  assumes "consistent s" "\<not> exists_operation s (operation_id d)"
    "mutation now [] d s = Inr s'"
  shows "exists_operation s' (operation_id d)"
  using assms
  by (cases rule: mutation_applied) (simp_all add: exists_operation_def new_payment_def)

lemma mutation_succeeds:
  assumes "consistent s" "\<not> exists_operation s (operation_id d)"
  shows "\<exists>s'. mutation now [] d s = Inr s'"
proof -
  have "distinct (map org_inn (organizations s))"
    using assms(1) by (simp add: consistent_def)
  from filter_distinct_key [OF this, of "payer_inn d"] show ?thesis
    using mutation_new [OF _ assms(2), of now] mutation_old [OF _ assms(2), of _ now]
    by blast
qed

lemma mutation_integrity:
  assumes "consistent s" "exists_operation s (operation_id d)"
  shows "mutation now [] d s = Inl IntegrityError"
proof -
  have "distinct (map org_inn (organizations s))"
    using assms(1) by (simp add: consistent_def)
  from filter_distinct_key [OF this, of "payer_inn d"] show ?thesis
    using assms(2)
    by (auto simp: mutation_def get_or_create_def payment_create_def exists_operation_def Let_def)
qed

section \<open>Requests one after the other\<close>

lemma mutation_split:
  "mutation now fs d s =
     (case get_or_create fs (payer_inn d) s of
        Inl e \<Rightarrow> Inl e
      | Inr (s1, organization, created) \<Rightarrow> mutation_rest now fs d organization s1)"
  by (simp add: mutation_def mutation_rest_def split: sum.splits prod.splits)

lemma post_new_work:
  assumes c: "consistent s" and v: "is_valid d"
    and u: "\<not> exists_operation s (operation_id d)"
  shows "consistent (fst (post now [] d s))"
    and "balance_view_get (payer_inn d) (fst (post now [] d s)) =
           HTTP_200_balance (payer_inn d) (balance_or_zero (payer_inn d) s + amount d)"
    and "map pay_operation_id (payments (fst (post now [] d s))) =
           map pay_operation_id (payments s) @ [operation_id d]"
    and "length (balance_logs (fst (post now [] d s))) = Suc (length (balance_logs s))"
proof -
  from mutation_succeeds [OF c u] obtain s' where m: "mutation now [] d s = Inr s'" ..
  have p: "fst (post now [] d s) = s'"
    using v u m by (simp add: post_def post_try_def atomic_def)
  show "consistent (fst (post now [] d s))"
    using c by (rule consistent_post)
  show "balance_view_get (payer_inn d) (fst (post now [] d s)) =
           HTTP_200_balance (payer_inn d) (balance_or_zero (payer_inn d) s + amount d)"
    unfolding p by (rule applied_balance [OF c u m])
  from c u m have "map pay_operation_id (payments s') =
           map pay_operation_id (payments s) @ [operation_id d] \<and>
         length (balance_logs s') = Suc (length (balance_logs s))"
    by (cases rule: mutation_applied) (simp_all add: new_payment_def)
  then show "map pay_operation_id (payments (fst (post now [] d s))) =
           map pay_operation_id (payments s) @ [operation_id d]"
    and "length (balance_logs (fst (post now [] d s))) = Suc (length (balance_logs s))"
    unfolding p by simp_all
qed

lemma exists_operation_iff:
  "exists_operation s u \<longleftrightarrow> u \<in> set (map pay_operation_id (payments s))"
  by (auto simp: exists_operation_def list_ex_iff)

lemma post_each_sum:
  assumes "consistent s"
    and "\<forall>r \<in> set rs. is_valid (snd r) \<and> payer_inn (snd r) = i \<and>
           \<not> exists_operation s (operation_id (snd r))"
    and "distinct (map (\<lambda>r. operation_id (snd r)) rs)"
  shows "(rs \<noteq> [] \<longrightarrow> balance_view_get i (post_each rs s) =
            HTTP_200_balance i (balance_or_zero i s + sum_list (map (\<lambda>r. amount (snd r)) rs))) \<and>
         map pay_operation_id (payments (post_each rs s)) =
           map pay_operation_id (payments s) @ map (\<lambda>r. operation_id (snd r)) rs \<and>
         length (balance_logs (post_each rs s)) = length (balance_logs s) + length rs"
  using assms
proof (induction rs arbitrary: s)
  case Nil
  then show ?case by simp
next
  case (Cons r rs)
  obtain now d where r: "r = (now, d)" by (cases r)
  let ?s1 = "fst (post now [] d s)"
  have v: "is_valid d" and inn: "payer_inn d = i"
    and u: "\<not> exists_operation s (operation_id d)"
    using Cons.prems(2) r by simp_all
  note step = post_new_work [OF Cons.prems(1) v u, of now]
  have b1: "balance_view_get i ?s1 = HTTP_200_balance i (balance_or_zero i s + amount d)"
    using step(2) inn by simp
  then have z1: "balance_or_zero i ?s1 = balance_or_zero i s + amount d"
    by (simp add: balance_or_zero_def)
  have rest: "\<forall>r \<in> set rs. is_valid (snd r) \<and> payer_inn (snd r) = i \<and>
           \<not> exists_operation ?s1 (operation_id (snd r))"
  proof
    fix x assume x: "x \<in> set rs"
    have h: "operation_id (snd x) \<in> set (map (\<lambda>r. operation_id (snd r)) rs)"
      using x by simp
    have nd: "operation_id d \<notin> set (map (\<lambda>r. operation_id (snd r)) rs)"
      using Cons.prems(3) by (simp add: r)
    have "operation_id (snd x) \<noteq> operation_id d"
    proof
      assume "operation_id (snd x) = operation_id d"
      with h have "operation_id d \<in> set (map (\<lambda>r. operation_id (snd r)) rs)"
        by simp
      with nd show False by contradiction
    qed
    moreover have "is_valid (snd x) \<and> payer_inn (snd x) = i \<and>
           \<not> exists_operation s (operation_id (snd x))"
      using Cons.prems(2) x by simp
    ultimately show "is_valid (snd x) \<and> payer_inn (snd x) = i \<and>
           \<not> exists_operation ?s1 (operation_id (snd x))"
      by (simp add: exists_operation_iff step(3))
  qed
  have d: "distinct (map (\<lambda>r. operation_id (snd r)) rs)"
    using Cons.prems(3) by simp
  note ih = Cons.IH [OF step(1) rest d]
  have e: "post_each (r # rs) s = post_each rs ?s1"
    by (simp add: r)
  show ?case
  proof (cases "rs = []")
    case True
    then show ?thesis using b1 step(3,4) by (simp add: r)
  next
    case False
    then show ?thesis using ih z1 step(3,4) by (simp add: e r)
  qed
qed

section \<open>The sample stores\<close>

lemma sample_store_post:
  "post 1714251900 [] sample_event empty_store = (sample_store, HTTP_200_OK)"
  by (simp add: webhook_defs sample_defs)

lemma sample_store_reachable: "reachable sample_store"
  using reachable_post [OF reachable_empty, of 1714251900 "[]" sample_event]
  by (simp add: sample_store_post)

lemma second_store_post:
  "post 1714338300 [] second_event sample_store = (second_store, HTTP_200_OK)"
  by (simp add: webhook_defs sample_defs)

lemma second_store_reachable: "reachable second_store"
  using reachable_post [OF sample_store_reachable, of 1714338300 "[]" second_event]
  by (simp add: second_store_post)

section \<open>Properties of the payment ingestion\<close>

text \<open>
  C1 (idempotence). After a request for an event has been answered with success from a
  reachable store, submitting the event again is answered with the same success and leaves
  the store as it is; the store then holds exactly one Payment row with the event's
  operation identifier and exactly one BalanceLog entry for it, and, when the first
  submission was new work, the organization's balance is its former balance plus the amount,
  once.
\<close>

theorem idempotence:
  assumes r: "reachable s" and first: "post now fs d s = (s1, HTTP_200_OK)"
  shows "post now' fs' d s1 = (s1, HTTP_200_OK) \<and>
         length (filter (\<lambda>p. pay_operation_id p = operation_id d) (payments s1)) = 1 \<and>
         length (payment_logs (operation_id d) s1) = 1 \<and>
         (\<not> exists_operation s (operation_id d) \<longrightarrow>
            balance_view_get (payer_inn d) s1 =
              HTTP_200_balance (payer_inn d) (balance_or_zero (payer_inn d) s + amount d))"
proof -
  have c: "consistent s" using r by (rule reachable_consistent)
  have c1: "consistent s1" using consistent_post [OF c, of now fs d] first by simp
  have v: "is_valid d" using first by (auto simp: post_def split: if_splits)
  have e1: "exists_operation s1 (operation_id d)"
  proof (cases rule: post_cases [of d now fs s])
    case (applied s')
    then show ?thesis using first applied_exists [OF c applied(2) applied(4)] by simp
  qed (use first in auto)
  have b: "\<not> exists_operation s (operation_id d) \<longrightarrow>
            balance_view_get (payer_inn d) s1 =
              HTTP_200_balance (payer_inn d) (balance_or_zero (payer_inn d) s + amount d)"
  proof (cases rule: post_cases [of d now fs s])
    case (applied s')
    then show ?thesis using first applied_balance [OF c applied(2) applied(4)] by simp
  qed (use first in auto)
  have "post now' fs' d s1 = (s1, HTTP_200_OK)"
    using v e1 by (simp add: post_def)
  with one_payment_one_log [OF c1 e1] b show ?thesis by simp
qed

theorem idempotence_witness:
  "post 1714251900 [] sample_event empty_store = (sample_store, HTTP_200_OK) \<and>
   post 1714252000 [PaymentCreate] sample_event sample_store = (sample_store, HTTP_200_OK) \<and>
   length (filter (\<lambda>p. pay_operation_id p = 1) (payments sample_store)) = 1 \<and>
   length (payment_logs 1 sample_store) = 1 \<and>
   balance_view_get ''1234567890'' sample_store = HTTP_200_balance ''1234567890'' 14500000"
  using idempotence [OF reachable_empty sample_store_post, of 1714252000 "[PaymentCreate]"]
    sample_store_post
  by (simp add: sample_event_def empty_store_def exists_operation_def balance_or_zero_def
      balance_view_get_def)

text \<open>
  C2, as stated: when the transaction fails on the uniqueness constraint because a concurrent
  request has stored the operation identifier after the duplicate check, the sender is
  answered with success. The handler of \<open>post\<close> answers every exception with 500: the
  first request for the sample event, overtaken by a second one for the same event, is
  answered with 500 and \<open>IntegrityError\<close>.
\<close>

theorem race_counterexample:
  "is_valid sample_event \<and>
   \<not> exists_operation empty_store (operation_id sample_event) \<and>
   exists_operation (fst (post 1714251900 [] sample_event empty_store))
     (operation_id sample_event) \<and>
   post_overtaken 1714251899 [] sample_event 1714251900 [] sample_event empty_store =
     (sample_store, HTTP_500_INTERNAL_SERVER_ERROR IntegrityError) \<and>
   snd (post_overtaken 1714251899 [] sample_event 1714251900 [] sample_event empty_store)
     \<noteq> HTTP_200_OK"
  by (simp add: webhook_defs sample_defs)

text \<open>
  C2, amended: when a valid event passes the duplicate check and a concurrent request stores
  its operation identifier before the transaction starts, the sender is answered with the
  failure outcome 500 (carrying \<open>IntegrityError\<close> when no other storage call raises
  first), and the store is left exactly as the concurrent request committed it.
\<close>

theorem race_answered_500:
  assumes r: "reachable s" and v: "is_valid d"
    and u: "\<not> exists_operation s (operation_id d)"
    and w: "exists_operation (fst (post now2 fs2 d2 s)) (operation_id d)"
  shows "(\<exists>e. post_overtaken now fs d now2 fs2 d2 s =
              (fst (post now2 fs2 d2 s), HTTP_500_INTERNAL_SERVER_ERROR e)) \<and>
         post_overtaken now [] d now2 fs2 d2 s =
              (fst (post now2 fs2 d2 s), HTTP_500_INTERNAL_SERVER_ERROR IntegrityError)"
proof -
  have c2: "consistent (fst (post now2 fs2 d2 s))"
    using r by (intro consistent_post reachable_consistent)
  from mutation_dup [OF w] obtain e where
    "mutation now fs d (fst (post now2 fs2 d2 s)) = Inl e" ..
  then have "post_overtaken now fs d now2 fs2 d2 s =
              (fst (post now2 fs2 d2 s), HTTP_500_INTERNAL_SERVER_ERROR e)"
    using v u by (simp add: post_overtaken_def post_try_def atomic_def)
  moreover have "post_overtaken now [] d now2 fs2 d2 s =
              (fst (post now2 fs2 d2 s), HTTP_500_INTERNAL_SERVER_ERROR IntegrityError)"
    using v u mutation_integrity [OF c2 w, of now]
    by (simp add: post_overtaken_def post_try_def atomic_def)
  ultimately show ?thesis by blast
qed

theorem race_answered_500_witness:
  "is_valid second_event \<and>
   \<not> exists_operation sample_store (operation_id second_event) \<and>
   exists_operation (fst (post 1714338300 [] second_event sample_store))
     (operation_id second_event) \<and>
   post_overtaken 1714338299 [] second_event 1714338300 [] second_event sample_store =
     (second_store, HTTP_500_INTERNAL_SERVER_ERROR IntegrityError)"
proof -
  have v: "is_valid second_event"
    by (simp add: webhook_defs sample_defs)
  have u: "\<not> exists_operation sample_store (operation_id second_event)"
    by (simp add: webhook_defs sample_defs)
  have w: "exists_operation (fst (post 1714338300 [] second_event sample_store))
             (operation_id second_event)"
    by (simp add: second_store_post) (simp add: exists_operation_def sample_defs)
  show ?thesis
    using race_answered_500 [OF sample_store_reachable v u w, of 1714338299 "[]"] v u w
    by (simp add: second_store_post)
qed

text \<open>
  C3 (atomicity). When the transaction fails, as it does whenever one of its calls raises
  (\<open>raising_call_fails\<close>), the request leaves the store exactly as it found it,
  whichever effects came before the failure; a valid event that passed the duplicate check
  is then answered with 500 and the exception.
\<close>

theorem atomicity:
  assumes "mutation now fs d s = Inl e"
  shows "fst (post now fs d s) = s \<and>
         (is_valid d \<and> \<not> exists_operation s (operation_id d) \<longrightarrow>
            post now fs d s = (s, HTTP_500_INTERNAL_SERVER_ERROR e))"
  using assms by (simp add: post_def post_try_def atomic_def)

theorem atomicity_witness:
  "mutation 1714338300 [BalanceLogCreate] second_event sample_store =
     Inl (StorageError BalanceLogCreate) \<and>
   post 1714338300 [BalanceLogCreate] second_event sample_store =
     (sample_store, HTTP_500_INTERNAL_SERVER_ERROR (StorageError BalanceLogCreate))"
proof -
  have m: "mutation 1714338300 [BalanceLogCreate] second_event sample_store =
     Inl (StorageError BalanceLogCreate)"
    by (simp add: webhook_defs sample_defs)
  have "is_valid second_event \<and> \<not> exists_operation sample_store (operation_id second_event)"
    by (simp add: webhook_defs sample_defs)
  with atomicity [OF m] m show ?thesis by simp
qed

text \<open>
  C4 (reconciliation). In every store reachable by handling requests, the deltas of the
  BalanceLog entries of each organization sum to the organization's balance.
\<close>

theorem reconciliation:
  assumes "reachable s" and "c \<in> set (organizations s)"
  shows "log_total s (org_id c) = org_balance c"
  using reachable_consistent [OF assms(1)] assms(2) by (simp add: consistent_def)

theorem reconciliation_witness:
  "reachable second_store \<and>
   sample_organization\<lparr>org_balance := 14505000\<rparr> \<in> set (organizations second_store) \<and>
   log_total second_store 1 = 14505000"
proof -
  have m: "sample_organization\<lparr>org_balance := 14505000\<rparr> \<in> set (organizations second_store)"
    by (simp add: second_store_def)
  from reconciliation [OF second_store_reachable m] second_store_reachable m
  show ?thesis by (simp add: sample_organization_def)
qed

text \<open>
  C5, as stated: payments with distinct operation identifiers for one new organization,
  handled concurrently, leave the sum of their amounts as the balance. The code fetches the
  organization, adds the amount to the fetched balance and saves the result, without a lock
  on the row. Three events for one new organization: the first creates it; the second
  fetches it and is overtaken by the third, and then saves the balance it fetched plus its
  own amount. All are answered with success, three Payment rows and three BalanceLog entries
  are stored, and the balance is 145050.00 where the amounts sum to 145051.00.
\<close>

theorem lost_update_counterexample:
  "organizations empty_store = [] \<and>
   map payer_inn [sample_event, second_event, fourth_event] =
     [''1234567890'', ''1234567890'', ''1234567890''] \<and>
   map operation_id [sample_event, second_event, fourth_event] = [1, 2, 4] \<and>
   post 1714251900 [] sample_event empty_store = (sample_store, HTTP_200_OK) \<and>
   snd (post 1714338301 [] fourth_event sample_store) = HTTP_200_OK \<and>
   map_option
     (\<lambda>(s', r). (r, length (payments s'), length (balance_logs s'),
                 balance_view_get ''1234567890'' s'))
     (post_fetch_overtaken 1714338300 [] second_event 1714338301 [] fourth_event sample_store)
     = Some (HTTP_200_OK, 3, 3, HTTP_200_balance ''1234567890'' 14505000) \<and>
   amount sample_event + amount second_event + amount fourth_event = 14505100"
  by (simp add: webhook_defs sample_defs balance_view_get_def)

text \<open>
  C5, amended: payments with distinct operation identifiers, all naming the same new
  organization and handled one after the other with no storage call raising, leave that
  organization with the sum of their amounts as its balance, one Payment row more for each
  event, in their order, and one BalanceLog entry more for each event.
\<close>

theorem sequential_payments:
  assumes r: "reachable s"
    and n: "\<forall>c \<in> set (organizations s). org_inn c \<noteq> i"
    and e: "\<forall>r \<in> set rs. is_valid (snd r) \<and> payer_inn (snd r) = i \<and>
              \<not> exists_operation s (operation_id (snd r))"
    and d: "distinct (map (\<lambda>r. operation_id (snd r)) rs)"
    and ne: "rs \<noteq> []"
  shows "balance_view_get i (post_each rs s) =
           HTTP_200_balance i (sum_list (map (\<lambda>r. amount (snd r)) rs)) \<and>
         map pay_operation_id (payments (post_each rs s)) =
           map pay_operation_id (payments s) @ map (\<lambda>r. operation_id (snd r)) rs \<and>
         length (balance_logs (post_each rs s)) = length (balance_logs s) + length rs"
proof -
  have "filter (\<lambda>c. org_inn c = i) (organizations s) = []"
    using n by (simp add: filter_empty_conv)
  then have z: "balance_or_zero i s = 0"
    by (simp add: balance_or_zero_def balance_view_get_def)
  from post_each_sum [OF reachable_consistent [OF r] e d] ne z
  show ?thesis by simp
qed

theorem sequential_payments_witness:
  "reachable empty_store \<and>
   post_each [(1714251900, sample_event), (1714338300, second_event)] empty_store
     = second_store \<and>
   balance_view_get ''1234567890'' second_store = HTTP_200_balance ''1234567890'' 14505000 \<and>
   amount sample_event + amount second_event = 14505000 \<and>
   map pay_operation_id (payments second_store) = [1, 2] \<and>
   length (balance_logs second_store) = 2"
proof -
  let ?rs = "[(1714251900, sample_event), (1714338300, second_event)]"
  have n: "\<forall>c \<in> set (organizations empty_store). org_inn c \<noteq> ''1234567890''"
    by (simp add: empty_store_def)
  have e: "\<forall>r \<in> set ?rs. is_valid (snd r) \<and> payer_inn (snd r) = ''1234567890'' \<and>
              \<not> exists_operation empty_store (operation_id (snd r))"
    by (simp add: webhook_defs sample_defs)
  have d: "distinct (map (\<lambda>r. operation_id (snd r)) ?rs)"
    by (simp add: sample_defs)
  have p: "post_each ?rs empty_store = second_store"
    by (simp add: sample_store_post second_store_post)
  from sequential_payments [OF reachable_empty n e d] p reachable_empty
  show ?thesis by (simp add: sample_defs)
qed

text \<open>
  C6 (lazy organization creation). When no stored organization has the event's tax
  identifier and the event is new work that is processed with success, \<open>get_or_create\<close>
  creates the organization with balance 0, exactly one organization row is added to the
  store, and afterwards that organization's balance is the event's amount.
\<close>

theorem lazy_creation:
  assumes n: "\<forall>c \<in> set (organizations s). org_inn c \<noteq> payer_inn d"
    and u: "\<not> exists_operation s (operation_id d)"
    and p: "post now fs d s = (s', HTTP_200_OK)"
  shows "\<exists>c. get_or_create fs (payer_inn d) s =
               Inr (s\<lparr>organizations := organizations s @ [c]\<rparr>, c, True) \<and>
             org_inn c = payer_inn d \<and> org_balance c = 0 \<and>
             organizations s' = organizations s @ [c\<lparr>org_balance := amount d\<rparr>] \<and>
             balance_view_get (payer_inn d) s' = HTTP_200_balance (payer_inn d) (amount d)"
proof -
  have f: "filter (\<lambda>c. org_inn c = payer_inn d) (organizations s) = []"
    using n by (simp add: filter_empty_conv)
  show ?thesis
  proof (cases rule: post_cases [of d now fs s])
    case (applied s1)
    then have s': "s' = \<lparr>organizations = organizations s @
             [\<lparr>org_id = next_id (map org_id (organizations s)),
               org_inn = payer_inn d, org_balance = amount d\<rparr>],
          payments = payments s @
             [new_payment now d (next_id (map org_id (organizations s))) s],
          balance_logs = balance_logs s @
             [new_log now d (next_id (map org_id (organizations s))) (amount d) s]\<rparr>"
      using p mutation_new [OF f u, of now] by simp
    show ?thesis using f applied(3)
      by (simp add: s' get_or_create_def balance_view_get_def Let_def)
  qed (use p u in auto)
qed

theorem lazy_creation_witness:
  "\<not> exists_operation sample_store (operation_id third_event) \<and>
   post 1714400000 [] third_event sample_store = (third_store, HTTP_200_OK) \<and>
   organizations third_store =
     [sample_organization,
      \<lparr>org_id = 2, org_inn = ''770708389312'', org_balance = 250000\<rparr>] \<and>
   balance_view_get ''770708389312'' third_store =
     HTTP_200_balance ''770708389312'' 250000"
proof -
  have n: "\<forall>c \<in> set (organizations sample_store). org_inn c \<noteq> payer_inn third_event"
    by (simp add: sample_defs)
  have u: "\<not> exists_operation sample_store (operation_id third_event)"
    by (simp add: exists_operation_def sample_defs)
  have p: "post 1714400000 [] third_event sample_store = (third_store, HTTP_200_OK)"
    by (simp add: webhook_defs sample_defs)
  from lazy_creation [OF n u p] obtain c where
    o: "organizations third_store =
          organizations sample_store @ [c\<lparr>org_balance := amount third_event\<rparr>]"
    and b: "balance_view_get (payer_inn third_event) third_store =
          HTTP_200_balance (payer_inn third_event) (amount third_event)"
    by blast
  have "organizations third_store =
     [sample_organization,
      \<lparr>org_id = 2, org_inn = ''770708389312'', org_balance = 250000\<rparr>]"
    by (simp add: sample_defs)
  with u p b show ?thesis by (simp add: third_event_def)
qed

text \<open>
  C7 (non-negativity). The serializer admits no negative amount and \<open>mutation\<close> only adds
  the amount, so in every store reachable by handling requests no organization's balance is
  negative.
\<close>

theorem non_negativity:
  assumes "reachable s" and "c \<in> set (organizations s)"
  shows "0 \<le> org_balance c"
  using reachable_consistent [OF assms(1)] assms(2) by (simp add: consistent_def)

theorem non_negativity_witness:
  "reachable sample_store \<and> sample_organization \<in> set (organizations sample_store) \<and>
   0 \<le> org_balance sample_organization"
proof -
  have m: "sample_organization \<in> set (organizations sample_store)"
    by (simp add: sample_store_def)
  from non_negativity [OF sample_store_reachable m] sample_store_reachable m
  show ?thesis by simp
qed



text \<open>
  C9 (owner of a payment). Every payment stored by the ingestion path refers to an
  organization, and that organization's tax identifier is the payment's payer tax identifier,
  although the column itself may hold no reference.
\<close>

theorem payment_organization:
  assumes "reachable s" and "p \<in> set (payments s)"
  shows "\<exists>c \<in> set (organizations s).
           pay_organization p = Some (org_id c) \<and> org_inn c = pay_payer_inn p"
  using reachable_consistent [OF assms(1)] assms(2) by (simp add: consistent_def)

theorem payment_organization_witness:
  "reachable sample_store \<and> sample_payment \<in> set (payments sample_store) \<and>
   organizations sample_store = [sample_organization] \<and>
   pay_organization sample_payment = Some (org_id sample_organization) \<and>
   org_inn sample_organization = pay_payer_inn sample_payment"
proof -
  have m: "sample_payment \<in> set (payments sample_store)"
    by (simp add: sample_store_def)
  from payment_organization [OF sample_store_reachable m] sample_store_reachable m
  show ?thesis by (simp add: sample_store_def)
qed

text \<open>
  C10 (zero amount). An otherwise valid event with amount 0 is valid; when it is new work
  and no storage call raises, it is answered with success, one Payment row with amount 0 is
  added, one BalanceLog entry for it is added with delta 0 and with the organization's
  balance as its new balance, and that balance is what it was before (0 for an organization
  created by this event).
\<close>

theorem zero_amount:
  assumes r: "reachable s" and v: "is_valid e" and d: "d = e\<lparr>amount := 0\<rparr>"
    and u: "\<not> exists_operation s (operation_id d)"
  shows "\<exists>s' p l. post now [] d s = (s', HTTP_200_OK) \<and>
           payments s' = payments s @ [p] \<and>
           pay_operation_id p = operation_id d \<and> pay_amount p = 0 \<and>
           balance_logs s' = balance_logs s @ [l] \<and>
           log_payment l = Some (pay_id p) \<and> log_amount l = 0 \<and>
           log_new_balance l = balance_or_zero (payer_inn d) s \<and>
           balance_view_get (payer_inn d) s' =
             HTTP_200_balance (payer_inn d) (balance_or_zero (payer_inn d) s)"
proof -
  have c: "consistent s" using r by (rule reachable_consistent)
  have vd: "is_valid d" and a: "amount d = 0"
    using v d by (simp_all add: is_valid_def)
  from mutation_succeeds [OF c u] obtain s' where m: "mutation now [] d s = Inr s'" ..
  have p: "post now [] d s = (s', HTTP_200_OK)"
    using vd u m by (simp add: post_def post_try_def atomic_def)
  have b: "balance_view_get (payer_inn d) s' =
             HTTP_200_balance (payer_inn d) (balance_or_zero (payer_inn d) s)"
    using applied_balance [OF c u m] a by simp
  from c u m show ?thesis
  proof (cases rule: mutation_applied)
    case new
    have "log_new_balance (new_log now d (next_id (map org_id (organizations s))) (amount d) s)
        = balance_or_zero (payer_inn d) s"
      using new(1) a by (simp add: new_log_def balance_or_zero_def balance_view_get_def)
    then show ?thesis using p b a new(2)
      by (intro exI [of _ s']
          exI [of _ "new_payment now d (next_id (map org_id (organizations s))) s"]
          exI [of _ "new_log now d (next_id (map org_id (organizations s))) (amount d) s"])
        (simp add: new_payment_def new_log_def)
  next
    case (old c0)
    have "log_new_balance (new_log now d (org_id c0) (org_balance c0 + amount d) s)
        = balance_or_zero (payer_inn d) s"
      using old(1) a by (simp add: new_log_def balance_or_zero_def balance_view_get_def)
    then show ?thesis using p b a old(2)
      by (intro exI [of _ s'] exI [of _ "new_payment now d (org_id c0) s"]
          exI [of _ "new_log now d (org_id c0) (org_balance c0 + amount d) s"])
        (simp add: new_payment_def new_log_def)
  qed
qed

theorem zero_amount_witness:
  "is_valid third_event \<and>
   \<not> exists_operation sample_store (operation_id (third_event\<lparr>amount := 0\<rparr>)) \<and>
   snd (post 1714400000 [] (third_event\<lparr>payer_inn := ''1234567890'', amount := 0\<rparr>)
          sample_store) = HTTP_200_OK \<and>
   balance_view_get ''1234567890''
     (fst (post 1714400000 [] (third_event\<lparr>payer_inn := ''1234567890'', amount := 0\<rparr>)
          sample_store)) = HTTP_200_balance ''1234567890'' 14500000"
proof -
  have v: "is_valid (third_event\<lparr>payer_inn := ''1234567890''\<rparr>)"
    by (simp add: webhook_defs sample_defs)
  have v3: "is_valid third_event"
    by (simp add: webhook_defs sample_defs)
  have u: "\<not> exists_operation sample_store
             (operation_id (third_event\<lparr>payer_inn := ''1234567890'', amount := 0\<rparr>))"
    by (simp add: exists_operation_def sample_defs)
  have b: "balance_or_zero ''1234567890'' sample_store = 14500000"
    by (simp add: balance_or_zero_def balance_view_get_def sample_defs)
  from zero_amount [OF sample_store_reachable v refl u, of 1714400000] v3 u b
  show ?thesis by auto
qed

end
